theory Spec2Isabelle
  imports Main
begin

section \<open>The CSS selector builder of \<open>06-objects-tasks.js\<close>\<close>

text \<open>
  The module exports the facade object \<open>cssSelectorBuilder\<close>. Its methods create objects
  of two classes: \<open>Builder\<close> (\<open>MyBuilder\<close>), a mutable accumulator of selector parts, and
  \<open>Combiner\<close> (\<open>MyCombiner\<close>), which joins two objects that have a \<open>stringify\<close> method.
  The spec calls \<open>stringify\<close> "render".

  A method of \<open>Builder\<close> is modelled by a function from the state of \<open>this\<close> before the
  call to the outcome of the call together with the state of \<open>this\<close> after it. The state
  after the call is kept when the call throws too: what a method has assigned before it
  throws stays assigned in JavaScript. The outcome \<open>Inr ()\<close> is the normal return (of
  \<open>this\<close>, for chaining), \<open>Inl e\<close> is the exception \<open>e\<close>. Arguments are strings, as the spec
  declares them.
\<close>

subsection \<open>Values and errors\<close>

text \<open>
  The two \<open>throw new Error(...)\<close> of \<open>Builder\<close> differ in their message only. The message
  "Element, id and pseudo-element should not occur more then one time inside the
  selector" is \<open>DuplicateFragmentError\<close>; the message "Selector parts should be arranged
  in the following order: ..." is \<open>OrderViolationError\<close>. \<open>TypeError\<close> is what JavaScript
  raises for a method call on \<open>undefined\<close>.
\<close>

datatype error = DuplicateFragmentError | OrderViolationError | TypeError

text \<open>
  A property that holds a string or was never assigned (\<open>undefined\<close>) is a
  \<open>string option\<close>. \<open>truthy\<close> is the test \<open>if (x)\<close>: \<open>undefined\<close> and the empty string
  are falsy. \<open>ToString\<close> is what a template literal or \<open>+=\<close> makes of the value.
\<close>

fun truthy :: "string option \<Rightarrow> bool" where
  "truthy None = False"
| "truthy (Some s) = (s \<noteq> [])"

fun ToString :: "string option \<Rightarrow> string" where
  "ToString None = ''undefined''"
| "ToString (Some s) = s"

subsection \<open>The class \<open>Builder\<close>\<close>

text \<open>
  The fields \<open>sElement\<close>, \<open>sId\<close> and \<open>sPseudoE\<close> are not set by the constructor: they are
  \<open>undefined\<close> until the first assignment. \<open>state\<close> is the array of six booleans.
  \<open>stateVars\<close> is assigned once in the constructor and only read afterwards; its six
  entries are the constants below.
\<close>

record Builder =
  sElement :: "string option"
  sId :: "string option"
  sClass :: "string list"
  sAttr :: "string list"
  sPseudo :: "string list"
  sPseudoE :: "string option"
  state :: "bool list"

definition stateVars_sElement :: nat where "stateVars_sElement = 0"
definition stateVars_sId :: nat where "stateVars_sId = 1"
definition stateVars_sClass :: nat where "stateVars_sClass = 2"
definition stateVars_sAttr :: nat where "stateVars_sAttr = 3"
definition stateVars_sPseudo :: nat where "stateVars_sPseudo = 4"
definition stateVars_sPseudoE :: nat where "stateVars_sPseudoE = 5"

definition new_Builder :: Builder where
  "new_Builder =
     \<lparr>sElement = None, sId = None, sClass = [], sAttr = [], sPseudo = [],
      sPseudoE = None, state = replicate 6 False\<rparr>"

text \<open>
  \<open>a[i] = v\<close> on a JavaScript array: inside the array it replaces the entry; beyond its
  end the array grows, and the entries in between are holes, which read as \<open>undefined\<close>
  and are falsy like \<open>false\<close>.
\<close>

definition js_assign :: "bool list \<Rightarrow> nat \<Rightarrow> bool \<Rightarrow> bool list" where
  "js_assign a i v =
     (if i < length a then a[i := v] else a @ replicate (i - length a) False @ [v])"

text \<open>
  The loop of \<open>checkState\<close>, from index \<open>j\<close> on: \<open>True\<close> when it reaches an entry that is
  set (the \<open>throw\<close>), \<open>False\<close> when it runs off the end of the array.
\<close>

function later_touched :: "bool list \<Rightarrow> nat \<Rightarrow> bool" where
  "later_touched a j =
     (if j < length a then (if a ! j then True else later_touched a (j + 1)) else False)"
  by pat_completeness auto
termination
  by (relation "measure (\<lambda>(a, j). length a - j)") auto

declare later_touched.simps [simp del]

definition Builder_checkState :: "nat \<Rightarrow> Builder \<Rightarrow> (error + unit) \<times> Builder" where
  "Builder_checkState i this =
     (let this1 = this\<lparr>state := js_assign (state this) i True\<rparr> in
      if later_touched (state this1) (i + 1) then (Inl OrderViolationError, this1)
      else (Inr (), this1))"

definition Builder_element :: "string \<Rightarrow> Builder \<Rightarrow> (error + unit) \<times> Builder" where
  "Builder_element v this =
     (if truthy (sElement this) then (Inl DuplicateFragmentError, this)
      else Builder_checkState stateVars_sElement (this\<lparr>sElement := Some v\<rparr>))"

definition Builder_id :: "string \<Rightarrow> Builder \<Rightarrow> (error + unit) \<times> Builder" where
  "Builder_id v this =
     (if truthy (sId this) then (Inl DuplicateFragmentError, this)
      else Builder_checkState stateVars_sId (this\<lparr>sId := Some v\<rparr>))"

definition Builder_class :: "string \<Rightarrow> Builder \<Rightarrow> (error + unit) \<times> Builder" where
  "Builder_class v this =
     Builder_checkState stateVars_sClass (this\<lparr>sClass := sClass this @ [v]\<rparr>)"

definition Builder_attr :: "string \<Rightarrow> Builder \<Rightarrow> (error + unit) \<times> Builder" where
  "Builder_attr v this =
     Builder_checkState stateVars_sAttr (this\<lparr>sAttr := sAttr this @ [v]\<rparr>)"

definition Builder_pseudoClass :: "string \<Rightarrow> Builder \<Rightarrow> (error + unit) \<times> Builder" where
  "Builder_pseudoClass v this =
     Builder_checkState stateVars_sPseudo (this\<lparr>sPseudo := sPseudo this @ [v]\<rparr>)"

definition Builder_pseudoElement :: "string \<Rightarrow> Builder \<Rightarrow> (error + unit) \<times> Builder" where
  "Builder_pseudoElement v this =
     (if truthy (sPseudoE this) then (Inl DuplicateFragmentError, this)
      else Builder_checkState stateVars_sPseudoE (this\<lparr>sPseudoE := Some v\<rparr>))"

text \<open>
  \<open>stringify\<close> builds the local string \<open>result\<close> step by step and returns it; the second
  component is \<open>this\<close> after the call. \<open>xs.map(f).join('')\<close> is \<open>concat (map f xs)\<close>.
\<close>

definition Builder_stringify :: "Builder \<Rightarrow> string \<times> Builder" where
  "Builder_stringify this =
     (let result = [];
          result = (if truthy (sElement this) then result @ ToString (sElement this)
                    else result);
          result = (if truthy (sId this) then result @ ''#'' @ ToString (sId this)
                    else result);
          result = (if length (sClass this) > 0
                    then result @ concat (map (\<lambda>c. ''.'' @ c) (sClass this)) else result);
          result = (if length (sAttr this) > 0
                    then result @ concat (map (\<lambda>a. ''['' @ a @ '']'') (sAttr this))
                    else result);
          result = (if length (sPseudo this) > 0
                    then result @ concat (map (\<lambda>p. '':'' @ p) (sPseudo this)) else result);
          result = (if truthy (sPseudoE this) then result @ ''::'' @ ToString (sPseudoE this)
                    else result)
      in (result, this))"

subsection \<open>The facade's fragment methods\<close>

text \<open>Each one makes a new \<open>Builder\<close> and calls the method of the same name on it.\<close>

definition cssSelectorBuilder_element :: "string \<Rightarrow> (error + unit) \<times> Builder" where
  "cssSelectorBuilder_element v = Builder_element v new_Builder"

definition cssSelectorBuilder_id :: "string \<Rightarrow> (error + unit) \<times> Builder" where
  "cssSelectorBuilder_id v = Builder_id v new_Builder"

definition cssSelectorBuilder_class :: "string \<Rightarrow> (error + unit) \<times> Builder" where
  "cssSelectorBuilder_class v = Builder_class v new_Builder"

definition cssSelectorBuilder_attr :: "string \<Rightarrow> (error + unit) \<times> Builder" where
  "cssSelectorBuilder_attr v = Builder_attr v new_Builder"

definition cssSelectorBuilder_pseudoClass :: "string \<Rightarrow> (error + unit) \<times> Builder" where
  "cssSelectorBuilder_pseudoClass v = Builder_pseudoClass v new_Builder"

definition cssSelectorBuilder_pseudoElement :: "string \<Rightarrow> (error + unit) \<times> Builder" where
  "cssSelectorBuilder_pseudoElement v = Builder_pseudoElement v new_Builder"

subsection \<open>Objects, references and the class \<open>Combiner\<close>\<close>

text \<open>
  A \<open>Combiner\<close> holds references to two other objects, which are builders or combiners
  and may be shared or changed later, so the objects live in a store: a \<open>ref\<close> names a
  builder or a combiner by its index there, and \<open>new\<close> appends an object. The fields
  \<open>s1\<close>, \<open>s2\<close> and \<open>combiner\<close> are \<open>undefined\<close> until \<open>combine\<close> assigns them.
\<close>

datatype ref = BuilderRef nat | CombinerRef nat

record Combiner =
  s1 :: "ref option"
  s2 :: "ref option"
  combiner :: "string option"

record heap =
  builders :: "Builder list"
  combiners :: "Combiner list"

definition new_Combiner :: "heap \<Rightarrow> nat \<times> heap" where
  "new_Combiner h =
     (length (combiners h),
      h\<lparr>combiners := combiners h @ [\<lparr>s1 = None, s2 = None, combiner = None\<rparr>]\<rparr>)"

text \<open>An assignment to a field of the combiner \<open>this\<close>.\<close>

definition assign_Combiner :: "nat \<Rightarrow> (Combiner \<Rightarrow> Combiner) \<Rightarrow> heap \<Rightarrow> heap" where
  "assign_Combiner this f h = h\<lparr>combiners := (combiners h)[this := f (combiners h ! this)]\<rparr>"

text \<open>
  \<open>this.combine = (s1, combiner, s2) => {...}\<close>: three assignments, and \<open>this\<close> is returned.
\<close>

definition Combiner_combine :: "nat \<Rightarrow> ref \<Rightarrow> string \<Rightarrow> ref \<Rightarrow> heap \<Rightarrow> ref \<times> heap" where
  "Combiner_combine this a c b h =
     (let h1 = assign_Combiner this (\<lambda>x. x\<lparr>s1 := Some a\<rparr>) h;
          h2 = assign_Combiner this (\<lambda>x. x\<lparr>s2 := Some b\<rparr>) h1;
          h3 = assign_Combiner this (\<lambda>x. x\<lparr>combiner := Some c\<rparr>) h2
      in (CombinerRef this, h3))"

definition cssSelectorBuilder_combine :: "ref \<Rightarrow> string \<Rightarrow> ref \<Rightarrow> heap \<Rightarrow> ref \<times> heap" where
  "cssSelectorBuilder_combine a c b h =
     (let (this, h1) = new_Combiner h in Combiner_combine this a c b h1)"

text \<open>
  \<open>x.stringify()\<close> on the object \<open>x\<close> refers to: \<open>Builder.stringify\<close> for a builder; for a
  combiner the template literal, which calls \<open>this.s1.stringify()\<close>, reads
  \<open>this.combiner\<close>, calls \<open>this.s2.stringify()\<close> and joins the three with single spaces.
  A method call on \<open>undefined\<close> (a field never assigned, a reference to no object) raises
  \<open>TypeError\<close>. The combiners may refer to each other in a cycle, and then the calls never
  end: the first argument bounds the depth of the nested calls, and the result \<open>None\<close>
  says that the bound was reached. The second component is the store after the call.
\<close>

fun stringify :: "nat \<Rightarrow> ref \<Rightarrow> heap \<Rightarrow> (error + string) option \<times> heap" where
  "stringify 0 r h = (None, h)"
| "stringify (Suc n) (BuilderRef i) h =
     (if i < length (builders h) then
        (let (result, this) = Builder_stringify (builders h ! i)
         in (Some (Inr result), h\<lparr>builders := (builders h)[i := this]\<rparr>))
      else (Some (Inl TypeError), h))"
| "stringify (Suc n) (CombinerRef i) h =
     (if i < length (combiners h) then
        (case s1 (combiners h ! i) of
           None \<Rightarrow> (Some (Inl TypeError), h)
         | Some a \<Rightarrow>
            (case stringify n a h of
               (Some (Inr ra), h1) \<Rightarrow>
                 (let c = ToString (combiner (combiners h1 ! i)) in
                  case s2 (combiners h1 ! i) of
                    None \<Rightarrow> (Some (Inl TypeError), h1)
                  | Some b \<Rightarrow>
                     (case stringify n b h1 of
                        (Some (Inr rb), h2) \<Rightarrow> (Some (Inr (ra @ '' '' @ c @ '' '' @ rb)), h2)
                      | (r, h2) \<Rightarrow> (r, h2)))
             | (r, h1) \<Rightarrow> (r, h1)))
      else (Some (Inl TypeError), h))"

subsection \<open>Sequences of fragment additions\<close>

text \<open>
  A fragment addition is one call of a mutating method of \<open>Builder\<close>. \<open>stage\<close> is the index
  the method passes to \<open>checkState\<close>. \<open>call\<close> performs the addition. \<open>run\<close> performs a list
  of additions on one builder, one after the other, and returns the outcome of every
  call and the builder at the end; the builder goes on after a call that threw, as it
  does when the caller catches the exception.
\<close>

datatype fragment =
  Element string | Id string | Class string | Attr string | PseudoClass string
  | PseudoElement string

fun stage :: "fragment \<Rightarrow> nat" where
  "stage (Element v) = stateVars_sElement"
| "stage (Id v) = stateVars_sId"
| "stage (Class v) = stateVars_sClass"
| "stage (Attr v) = stateVars_sAttr"
| "stage (PseudoClass v) = stateVars_sPseudo"
| "stage (PseudoElement v) = stateVars_sPseudoE"

fun call :: "fragment \<Rightarrow> Builder \<Rightarrow> (error + unit) \<times> Builder" where
  "call (Element v) this = Builder_element v this"
| "call (Id v) this = Builder_id v this"
| "call (Class v) this = Builder_class v this"
| "call (Attr v) this = Builder_attr v this"
| "call (PseudoClass v) this = Builder_pseudoClass v this"
| "call (PseudoElement v) this = Builder_pseudoElement v this"

fun run :: "fragment list \<Rightarrow> Builder \<Rightarrow> (error + unit) list \<times> Builder" where
  "run [] this = ([], this)"
| "run (f # fs) this =
     (let (r, this1) = call f this; (rs, this2) = run fs this1 in (r # rs, this2))"

subsection \<open>Vocabulary of the properties\<close>

text \<open>
  \<open>already_set f this\<close> is the guard \<open>if (this.sElement)\<close>, \<open>if (this.sId)\<close> or
  \<open>if (this.sPseudoE)\<close> that the method for \<open>f\<close> evaluates first; \<open>class\<close>, \<open>attr\<close> and
  \<open>pseudoClass\<close> have no guard. \<open>store f this\<close> is the assignment or \<open>push\<close> the method
  performs before it calls \<open>checkState\<close>. \<open>stored f before after\<close> says that the value of
  \<open>f\<close> is in its field of \<open>after\<close>: assigned, or appended to what \<open>before\<close> had.
\<close>

fun already_set :: "fragment \<Rightarrow> Builder \<Rightarrow> bool" where
  "already_set (Element v) this = truthy (sElement this)"
| "already_set (Id v) this = truthy (sId this)"
| "already_set (PseudoElement v) this = truthy (sPseudoE this)"
| "already_set f this = False"

fun store :: "fragment \<Rightarrow> Builder \<Rightarrow> Builder" where
  "store (Element v) this = this\<lparr>sElement := Some v\<rparr>"
| "store (Id v) this = this\<lparr>sId := Some v\<rparr>"
| "store (Class v) this = this\<lparr>sClass := sClass this @ [v]\<rparr>"
| "store (Attr v) this = this\<lparr>sAttr := sAttr this @ [v]\<rparr>"
| "store (PseudoClass v) this = this\<lparr>sPseudo := sPseudo this @ [v]\<rparr>"
| "store (PseudoElement v) this = this\<lparr>sPseudoE := Some v\<rparr>"

fun stored :: "fragment \<Rightarrow> Builder \<Rightarrow> Builder \<Rightarrow> bool" where
  "stored (Element v) before after = (sElement after = Some v)"
| "stored (Id v) before after = (sId after = Some v)"
| "stored (Class v) before after = (sClass after = sClass before @ [v])"
| "stored (Attr v) before after = (sAttr after = sAttr before @ [v])"
| "stored (PseudoClass v) before after = (sPseudo after = sPseudo before @ [v])"
| "stored (PseudoElement v) before after = (sPseudoE after = Some v)"

text \<open>
  What holds of every builder that the constructor and the six mutating methods can
  produce: \<open>state\<close> has six entries, and a part that passes its \<open>if (this.s...)\<close> test has
  its entry of \<open>state\<close> set.
\<close>

definition consistent :: "Builder \<Rightarrow> bool" where
  "consistent this \<longleftrightarrow>
     length (state this) = 6 \<and> (truthy (sElement this) \<longrightarrow> state this ! stateVars_sElement) \<and>
     (truthy (sId this) \<longrightarrow> state this ! stateVars_sId) \<and>
     (truthy (sPseudoE this) \<longrightarrow> state this ! stateVars_sPseudoE)"

subsection \<open>The rendering the spec describes\<close>

text \<open>
  Section 4.1 of the spec, in its words: the element as it is, the id prefixed \<open>#\<close>, each
  class prefixed \<open>.\<close>, each attribute wrapped in \<open>[ ]\<close>, each pseudo-class prefixed \<open>:\<close>,
  the pseudo-element prefixed \<open>::\<close>, in this order and with nothing in between; an absent
  or empty element, id or pseudo-element and an empty sequence contribute nothing.
\<close>

fun part :: "string \<Rightarrow> string option \<Rightarrow> string" where
  "part prefix None = []"
| "part prefix (Some v) = (if v = [] then [] else prefix @ v)"

definition render_spec :: "Builder \<Rightarrow> string" where
  "render_spec this =
     part [] (sElement this) @ part ''#'' (sId this) @
     concat (map (\<lambda>c. ''.'' @ c) (sClass this)) @
     concat (map (\<lambda>a. ''['' @ a @ '']'') (sAttr this)) @
     concat (map (\<lambda>p. '':'' @ p) (sPseudo this)) @
     part ''::'' (sPseudoE this)"

text \<open>
  White space: space, tab, line feed, vertical tab, form feed, carriage return. A string
  is \<open>trimmed\<close> when it neither begins nor ends with white space. \<open>stored_values\<close> are the
  strings a builder holds.
\<close>

definition whitespace :: "char \<Rightarrow> bool" where
  "whitespace c \<longleftrightarrow>
     c \<in> set [CHR '' '', CHR 0x09, CHR 0x0A, CHR 0x0B, CHR 0x0C, CHR 0x0D]"

definition trimmed :: "string \<Rightarrow> bool" where
  "trimmed s \<longleftrightarrow> s = [] \<or> (\<not> whitespace (hd s) \<and> \<not> whitespace (last s))"

definition stored_values :: "Builder \<Rightarrow> string list" where
  "stored_values this =
     (case sElement this of None \<Rightarrow> [] | Some v \<Rightarrow> [v]) @
     (case sId this of None \<Rightarrow> [] | Some v \<Rightarrow> [v]) @
     sClass this @ sAttr this @ sPseudo this @
     (case sPseudoE this of None \<Rightarrow> [] | Some v \<Rightarrow> [v])"

text \<open>The values of the fragments of stage \<open>k\<close> in a sequence of additions, in its order.\<close>

fun value_of :: "fragment \<Rightarrow> string" where
  "value_of (Element v) = v"
| "value_of (Id v) = v"
| "value_of (Class v) = v"
| "value_of (Attr v) = v"
| "value_of (PseudoClass v) = v"
| "value_of (PseudoElement v) = v"

definition values_at :: "nat \<Rightarrow> fragment list \<Rightarrow> string list" where
  "values_at k fs = map value_of (filter (\<lambda>f. stage f = k) fs)"

text \<open>
  A sequence of additions names element, id and pseudo-element \<open>at_most_once\<close> each.
  \<open>render_in_order fs\<close> is the string section 4.1 describes for the fragments of \<open>fs\<close>:
  the elements, then the ids, the classes, the attributes, the pseudo-classes and the
  pseudo-elements, each group in the order of \<open>fs\<close>.
\<close>

definition at_most_once :: "fragment list \<Rightarrow> bool" where
  "at_most_once fs \<longleftrightarrow>
     length (values_at stateVars_sElement fs) \<le> 1 \<and>
     length (values_at stateVars_sId fs) \<le> 1 \<and>
     length (values_at stateVars_sPseudoE fs) \<le> 1"

definition render_in_order :: "fragment list \<Rightarrow> string" where
  "render_in_order fs =
     concat (values_at stateVars_sElement fs) @
     concat (map (\<lambda>v. part ''#'' (Some v)) (values_at stateVars_sId fs)) @
     concat (map (\<lambda>c. ''.'' @ c) (values_at stateVars_sClass fs)) @
     concat (map (\<lambda>a. ''['' @ a @ '']'') (values_at stateVars_sAttr fs)) @
     concat (map (\<lambda>p. '':'' @ p) (values_at stateVars_sPseudo fs)) @
     concat (map (\<lambda>v. part ''::'' (Some v)) (values_at stateVars_sPseudoE fs))"

section \<open>Properties\<close>

subsection \<open>The loop of \<open>checkState\<close> and the array assignment\<close>

lemma later_touched_iff:
  "later_touched a j \<longleftrightarrow> (\<exists>k. j \<le> k \<and> k < length a \<and> a ! k)"
proof (induction a j rule: later_touched.induct)
  case (1 a j)
  show ?case
  proof (cases "j < length a")
    case False
    then show ?thesis by (simp add: later_touched.simps [of a j])
  next
    case inside: True
    show ?thesis
    proof (cases "a ! j")
      case True
      with inside have "\<exists>k. j \<le> k \<and> k < length a \<and> a ! k"
        by blast
      with inside True show ?thesis
        by (simp add: later_touched.simps [of a j])
    next
      case False
      have step: "later_touched a j = later_touched a (j + 1)"
        using inside False by (simp add: later_touched.simps [of a j])
      have ih: "later_touched a (j + 1) \<longleftrightarrow> (\<exists>k. j + 1 \<le> k \<and> k < length a \<and> a ! k)"
        using 1 inside False by simp
      have "j + 1 \<le> k" if "j \<le> k" and "a ! k" for k
      proof -
        from that False have "k \<noteq> j" by blast
        with that show ?thesis by simp
      qed
      then have "(\<exists>k. j + 1 \<le> k \<and> k < length a \<and> a ! k) \<longleftrightarrow>
          (\<exists>k. j \<le> k \<and> k < length a \<and> a ! k)"
        by (meson Suc_leD Suc_eq_plus1 add_leD1)
      with step ih show ?thesis by simp
    qed
  qed
qed


lemma length_js_assign: "length (js_assign a i v) = max (length a) (Suc i)"
  by (simp add: js_assign_def)

lemma js_assign_same: "js_assign a i v ! i = v"
  by (simp add: js_assign_def nth_append)

lemma js_assign_other: "k \<noteq> i \<Longrightarrow> k < length a \<Longrightarrow> js_assign a i v ! k = a ! k"
  by (simp add: js_assign_def nth_append)

lemma later_touched_js_assign:
  "later_touched (js_assign a i True) (Suc i) \<longleftrightarrow> (\<exists>k. i < k \<and> k < length a \<and> a ! k)"
proof -
  have "(Suc i \<le> k \<and> k < length (js_assign a i True) \<and> js_assign a i True ! k) \<longleftrightarrow>
      (i < k \<and> k < length a \<and> a ! k)" for k
  proof (cases "k < length a")
    case True
    then show ?thesis
      by (cases "k = i") (auto simp: length_js_assign js_assign_other)
  next
    case False
    then show ?thesis
      by (auto simp: length_js_assign)
  qed
  then show ?thesis
    by (simp add: later_touched_iff)
qed

lemma Builder_checkState_eq:
  "Builder_checkState i this =
     (if \<exists>k. i < k \<and> k < length (state this) \<and> state this ! k then Inl OrderViolationError
      else Inr (), this\<lparr>state := js_assign (state this) i True\<rparr>)"
  by (auto simp: Builder_checkState_def Let_def later_touched_js_assign)

subsection \<open>One call\<close>

lemmas stateVars_defs =
  stateVars_sElement_def stateVars_sId_def stateVars_sClass_def stateVars_sAttr_def
  stateVars_sPseudo_def stateVars_sPseudoE_def

lemmas Builder_method_defs =
  Builder_element_def Builder_id_def Builder_class_def Builder_attr_def
  Builder_pseudoClass_def Builder_pseudoElement_def

lemma call_eq:
  "call f this =
     (if already_set f this then (Inl DuplicateFragmentError, this)
      else Builder_checkState (stage f) (store f this))"
  by (cases f) (simp_all add: Builder_method_defs)

lemma state_store: "state (store f this) = state this"
  by (cases f) simp_all

lemma fst_call:
  "fst (call f this) =
     (if already_set f this then Inl DuplicateFragmentError
      else if \<exists>k. stage f < k \<and> k < length (state this) \<and> state this ! k
      then Inl OrderViolationError else Inr ())"
  by (simp add: call_eq Builder_checkState_eq state_store)

lemma snd_call:
  "snd (call f this) =
     (if already_set f this then this
      else (store f this)\<lparr>state := js_assign (state this) (stage f) True\<rparr>)"
  by (simp add: call_eq Builder_checkState_eq state_store)

lemma stored_store: "stored f this ((store f this)\<lparr>state := a\<rparr>)"
  by (cases f) simp_all

lemma already_set_cases:
  "already_set f this \<Longrightarrow> \<exists>v. f = Element v \<or> f = Id v \<or> f = PseudoElement v"
  by (cases f) simp_all

text \<open>
  Claim C8. \<open>stringify\<close> (the spec's \<open>render\<close>) only reads the builder: after the call
  every field of \<open>this\<close>, the array \<open>state\<close> included, is what it was before, so a second
  call returns the same string.
\<close>

theorem stringify_read_only:
  "snd (Builder_stringify this) = this \<and>
   fst (Builder_stringify (snd (Builder_stringify this))) = fst (Builder_stringify this)"
  by (simp add: Builder_stringify_def Let_def)

text \<open>
  Claim C9. When a call raises the duplicate-fragment error, the builder is exactly as
  it was before the call. Only \<open>element\<close>, \<open>id\<close> and \<open>pseudoElement\<close> raise that error.
\<close>

theorem duplicate_error_atomic:
  assumes "fst (call f this) = Inl DuplicateFragmentError"
  shows "snd (call f this) = this \<and> (\<exists>v. f = Element v \<or> f = Id v \<or> f = PseudoElement v)"
proof -
  from assms have "already_set f this"
    by (simp add: fst_call split: if_splits)
  then show ?thesis
    by (simp add: snd_call already_set_cases)
qed

theorem duplicate_error_atomic_witness:
  "fst (call (Element ''b'') (snd (cssSelectorBuilder_element ''a''))) = Inl DuplicateFragmentError \<and>
   snd (call (Element ''b'') (snd (cssSelectorBuilder_element ''a''))) =
     snd (cssSelectorBuilder_element ''a'')"
proof -
  have h: "fst (call (Element ''b'') (snd (cssSelectorBuilder_element ''a''))) =
      Inl DuplicateFragmentError"
    by code_simp
  from duplicate_error_atomic [OF h] h show ?thesis
    by simp
qed

text \<open>
  Claim C10. When a mutating call raises the order-violation error, the value of the
  fragment is already in the builder (assigned, or appended to its sequence), the entry
  of its stage in \<open>state\<close> is already set, and the builder stays so after the throw.
\<close>

theorem order_violation_not_atomic:
  assumes "fst (call f this) = Inl OrderViolationError"
  shows "stored f this (snd (call f this)) \<and>
    stage f < length (state (snd (call f this))) \<and> state (snd (call f this)) ! stage f"
proof -
  from assms have "\<not> already_set f this"
    by (simp add: fst_call split: if_splits)
  then have "snd (call f this) = (store f this)\<lparr>state := js_assign (state this) (stage f) True\<rparr>"
    by (simp add: snd_call)
  then show ?thesis
    by (simp add: stored_store length_js_assign js_assign_same)
qed

theorem order_violation_not_atomic_witness:
  "fst (call (Id ''y'') (snd (cssSelectorBuilder_class ''x''))) = Inl OrderViolationError \<and>
   sId (snd (call (Id ''y'') (snd (cssSelectorBuilder_class ''x'')))) = Some ''y'' \<and>
   state (snd (call (Id ''y'') (snd (cssSelectorBuilder_class ''x'')))) ! 1"
proof -
  have h: "fst (call (Id ''y'') (snd (cssSelectorBuilder_class ''x''))) = Inl OrderViolationError"
    by code_simp
  from order_violation_not_atomic [OF h] h show ?thesis
    by (simp add: stateVars_sId_def)
qed

subsection \<open>Sequences of calls and the stage check\<close>

lemma stage_less_6: "stage f < 6"
  by (cases f) (simp_all add: stateVars_defs)

lemma consistent_new_Builder: "consistent new_Builder"
  by (simp add: consistent_def new_Builder_def)

lemma js_assign_mono: "k < length a \<Longrightarrow> a ! k \<Longrightarrow> js_assign a i True ! k"
  by (cases "k = i") (simp_all add: js_assign_same js_assign_other)

lemma state_snd_call:
  "state (snd (call f this)) =
     (if already_set f this then state this else js_assign (state this) (stage f) True)"
  by (simp add: snd_call)

lemma length_state_call:
  "length (state this) = 6 \<Longrightarrow> length (state (snd (call f this))) = 6"
  using stage_less_6 [of f] by (simp add: state_snd_call length_js_assign)

lemma touched_call_mono:
  "k < length (state this) \<Longrightarrow> state this ! k \<Longrightarrow> state (snd (call f this)) ! k"
  by (simp add: state_snd_call js_assign_mono)

lemma consistent_call:
  assumes "consistent this"
  shows "consistent (snd (call f this))"
proof (cases "already_set f this")
  case True
  with assms show ?thesis by (simp add: snd_call)
next
  case False
  let ?a = "js_assign (state this) (stage f) True"
  from assms have len: "length (state this) = 6"
    by (simp add: consistent_def)
  have keep: "state this ! k \<Longrightarrow> ?a ! k" if "k < 6" for k
    using that len by (simp add: js_assign_mono)
  have self: "?a ! stage f"
    by (simp add: js_assign_same)
  have "length ?a = 6"
    using len stage_less_6 [of f] by (simp add: length_js_assign)
  moreover have "truthy (sElement (store f this)) \<longrightarrow> ?a ! stateVars_sElement"
    using assms keep [of stateVars_sElement] self
    by (cases f) (simp_all add: consistent_def stateVars_defs)
  moreover have "truthy (sId (store f this)) \<longrightarrow> ?a ! stateVars_sId"
    using assms keep [of stateVars_sId] self
    by (cases f) (simp_all add: consistent_def stateVars_defs)
  moreover have "truthy (sPseudoE (store f this)) \<longrightarrow> ?a ! stateVars_sPseudoE"
    using assms keep [of stateVars_sPseudoE] self
    by (cases f) (simp_all add: consistent_def stateVars_defs)
  ultimately show ?thesis
    using False by (simp add: snd_call consistent_def)
qed

lemma touched_call_self:
  assumes "consistent this"
  shows "state (snd (call f this)) ! stage f"
proof (cases "already_set f this")
  case True
  with assms show ?thesis
    by (cases f) (simp_all add: snd_call consistent_def del: call.simps)
next
  case False
  then show ?thesis
    by (simp add: snd_call js_assign_same)
qed

lemma snd_run_Cons: "snd (run (f # fs) this) = snd (run fs (snd (call f this)))"
  by (simp add: split_beta)

lemma fst_run_Cons:
  "fst (run (f # fs) this) = fst (call f this) # fst (run fs (snd (call f this)))"
  by (simp add: split_beta)

lemma consistent_run: "consistent this \<Longrightarrow> consistent (snd (run fs this))"
proof (induction fs arbitrary: this)
  case Nil
  then show ?case by simp
next
  case (Cons f fs)
  then show ?case
    by (simp only: snd_run_Cons consistent_call)
qed

lemma touched_run_mono:
  "consistent this \<Longrightarrow> k < 6 \<Longrightarrow> state this ! k \<Longrightarrow> state (snd (run fs this)) ! k"
proof (induction fs arbitrary: this)
  case Nil
  then show ?case by simp
next
  case (Cons f fs)
  from Cons.prems have "state (snd (call f this)) ! k"
    by (simp add: touched_call_mono consistent_def)
  with Cons.prems have "state (snd (run fs (snd (call f this)))) ! k"
    by (intro Cons.IH consistent_call)
  then show ?case
    by (simp only: snd_run_Cons)
qed

lemma touched_run_mem:
  "consistent this \<Longrightarrow> f \<in> set fs \<Longrightarrow> state (snd (run fs this)) ! stage f"
proof (induction fs arbitrary: this)
  case Nil
  then show ?case by simp
next
  case (Cons g fs)
  have c: "consistent (snd (call g this))"
    using Cons.prems(1) by (rule consistent_call)
  show ?case
  proof (cases "f = g")
    case True
    have "state (snd (call g this)) ! stage g"
      using Cons.prems(1) by (rule touched_call_self)
    with c have "state (snd (run fs (snd (call g this)))) ! stage g"
      by (intro touched_run_mono stage_less_6)
    with True show ?thesis
      by (simp only: snd_run_Cons)
  next
    case False
    with Cons.prems have "f \<in> set fs" by simp
    with c have "state (snd (run fs (snd (call g this)))) ! stage f"
      by (intro Cons.IH)
    then show ?thesis
      by (simp only: snd_run_Cons)
  qed
qed

text \<open>
  Claim C1, as amended. After any sequence of additions to a new builder, a further
  addition of a stage below the stage of one of them raises an error: the order error,
  unless the fragment is an element or an id whose duplicate guard fires, since the
  guard is evaluated first and raises the duplicate error.
\<close>

theorem later_stage_then_error:
  assumes "f' \<in> set fs" and "stage f < stage f'"
  shows "fst (call f (snd (run fs new_Builder))) =
    Inl (if already_set f (snd (run fs new_Builder)) then DuplicateFragmentError
         else OrderViolationError)"
proof -
  let ?b = "snd (run fs new_Builder)"
  have "consistent ?b"
    by (rule consistent_run [OF consistent_new_Builder])
  then have "length (state ?b) = 6"
    by (simp add: consistent_def)
  with stage_less_6 [of f'] have "stage f' < length (state ?b)"
    by simp
  moreover have "state ?b ! stage f'"
    using assms(1) by (rule touched_run_mem [OF consistent_new_Builder])
  ultimately have "\<exists>k. stage f < k \<and> k < length (state ?b) \<and> state ?b ! k"
    using assms(2) by blast
  then show ?thesis
    by (simp add: fst_call)
qed

theorem later_stage_then_error_witness:
  "Attr ''z'' \<in> set [Class ''x'', Attr ''z''] \<and> stage (Id ''y'') < stage (Attr ''z'') \<and>
   fst (call (Id ''y'') (snd (run [Class ''x'', Attr ''z''] new_Builder))) =
     Inl OrderViolationError"
proof -
  have m: "Attr ''z'' \<in> set [Class ''x'', Attr ''z'']"
    by simp
  have s: "stage (Id ''y'') < stage (Attr ''z'')"
    by (simp add: stateVars_defs)
  have n: "\<not> already_set (Id ''y'') (snd (run [Class ''x'', Attr ''z''] new_Builder))"
    by code_simp
  from later_stage_then_error [OF m s] m s n show ?thesis
    by simp
qed

text \<open>
  Claim C1 as stated fails: after \<open>element('a')\<close> and \<open>class('b')\<close>, the call
  \<open>element('c')\<close> comes after a fragment of a later stage and raises the duplicate error,
  not the order error.
\<close>

theorem later_stage_not_order_violation:
  "Class ''b'' \<in> set [Element ''a'', Class ''b''] \<and>
   stage (Element ''c'') < stage (Class ''b'') \<and>
   fst (call (Element ''c'') (snd (run [Element ''a'', Class ''b''] new_Builder))) =
     Inl DuplicateFragmentError \<and>
   fst (call (Element ''c'') (snd (run [Element ''a'', Class ''b''] new_Builder))) \<noteq>
     Inl OrderViolationError"
proof -
  have "fst (call (Element ''c'') (snd (run [Element ''a'', Class ''b''] new_Builder))) =
      Inl DuplicateFragmentError"
    by code_simp
  then show ?thesis
    by (simp add: stateVars_defs)
qed

text \<open>
  Claim C3 at the empty string: the guards test the stored value for truthiness, so
  after \<open>element('')\<close>, \<open>id('')\<close> or \<open>pseudoElement('')\<close> a second call of the same method
  returns normally and overwrites the value.
\<close>

theorem second_after_empty_accepted:
  "fst (run [Element [], Element ''a''] new_Builder) = [Inr (), Inr ()] \<and>
   fst (run [Id [], Id ''a''] new_Builder) = [Inr (), Inr ()] \<and>
   fst (run [PseudoElement [], PseudoElement ''a''] new_Builder) = [Inr (), Inr ()] \<and>
   sElement (snd (run [Element [], Element ''a''] new_Builder)) = Some ''a''"
  by code_simp

text \<open>After a non-empty value the second call is rejected, whatever the builder held.\<close>

lemma second_after_nonempty_rejected:
  "v \<noteq> [] \<Longrightarrow> fst (call (Element w) (snd (call (Element v) this))) = Inl DuplicateFragmentError"
  "v \<noteq> [] \<Longrightarrow> fst (call (Id w) (snd (call (Id v) this))) = Inl DuplicateFragmentError"
  "v \<noteq> [] \<Longrightarrow>
     fst (call (PseudoElement w) (snd (call (PseudoElement v) this))) = Inl DuplicateFragmentError"
  by (simp_all add: fst_call snd_call del: call.simps)

subsection \<open>Rendering\<close>

lemma append_Cons_fun: "(@) (x # xs) = (\<lambda>v. x # (xs @ v))"
  by (rule ext) simp

lemma Builder_stringify_eq: "fst (Builder_stringify this) = render_spec this"
  by (cases "sElement this"; cases "sId this"; cases "sPseudoE this")
    (simp_all add: Builder_stringify_def Let_def render_spec_def append_Cons_fun)

lemma trimmed_append: "trimmed a \<Longrightarrow> trimmed b \<Longrightarrow> trimmed (a @ b)"
  by (cases "a = []"; cases "b = []") (simp_all add: trimmed_def)

lemma trimmed_concat: "\<forall>x \<in> set xs. trimmed x \<Longrightarrow> trimmed (concat xs)"
proof (induction xs)
  case Nil
  then show ?case by (simp add: trimmed_def)
next
  case (Cons x xs)
  then have "trimmed x" and "trimmed (concat xs)"
    by simp_all
  then have "trimmed (x @ concat xs)"
    by (rule trimmed_append)
  then show ?case by simp
qed

lemma trimmed_Cons: "\<not> whitespace c \<Longrightarrow> trimmed v \<Longrightarrow> trimmed (c # v)"
  by (cases "v = []") (simp_all add: trimmed_def)

lemma not_whitespace_punctuation:
  "\<not> whitespace CHR ''#''" "\<not> whitespace CHR ''.''" "\<not> whitespace CHR ''[''"
  "\<not> whitespace CHR '']''" "\<not> whitespace CHR '':''"
  by (simp_all add: whitespace_def)

lemma trimmed_part:
  assumes "trimmed prefix" and "\<forall>v. x = Some v \<longrightarrow> trimmed v"
  shows "trimmed (part prefix x)"
proof (cases x)
  case None
  then show ?thesis by (simp add: trimmed_def)
next
  case (Some v)
  show ?thesis
  proof (cases "v = []")
    case True
    with Some show ?thesis by (simp add: trimmed_def)
  next
    case False
    from assms Some have "trimmed (prefix @ v)"
      by (intro trimmed_append) simp_all
    with Some False show ?thesis by simp
  qed
qed

lemma trimmed_render_spec:
  assumes "\<forall>v \<in> set (stored_values this). trimmed v"
  shows "trimmed (render_spec this)"
proof -
  have e: "trimmed (part [] (sElement this))"
    using assms by (intro trimmed_part) (auto simp: stored_values_def trimmed_def)
  have i: "trimmed (part ''#'' (sId this))"
    using assms
    by (intro trimmed_part) (auto simp: stored_values_def trimmed_def not_whitespace_punctuation)
  have p: "trimmed (part ''::'' (sPseudoE this))"
    using assms
    by (intro trimmed_part) (auto simp: stored_values_def trimmed_def not_whitespace_punctuation)
  have c: "trimmed (concat (map (\<lambda>c. ''.'' @ c) (sClass this)))"
    using assms
    by (intro trimmed_concat)
      (auto simp: stored_values_def intro!: trimmed_Cons not_whitespace_punctuation)
  have a: "trimmed (concat (map (\<lambda>a. ''['' @ a @ '']'') (sAttr this)))"
    by (intro trimmed_concat) (auto simp: trimmed_def not_whitespace_punctuation)
  have q: "trimmed (concat (map (\<lambda>p. '':'' @ p) (sPseudo this)))"
    using assms
    by (intro trimmed_concat)
      (auto simp: stored_values_def intro!: trimmed_Cons not_whitespace_punctuation)
  from e i c a q p show ?thesis
    unfolding render_spec_def by (intro trimmed_append)
qed

text \<open>
  Claim C4, as amended. For every builder state \<open>stringify\<close> returns the concatenation
  the spec describes, and it adds no white space: when no stored value begins or ends
  with white space, neither does the result.
\<close>

theorem stringify_render_spec:
  "fst (Builder_stringify this) = render_spec this \<and>
   ((\<forall>v \<in> set (stored_values this). trimmed v) \<longrightarrow> trimmed (fst (Builder_stringify this)))"
  by (simp add: Builder_stringify_eq trimmed_render_spec)

theorem stringify_render_spec_witness:
  "stored_values (snd (run [Id ''main'', Class ''container'', Class ''editable''] new_Builder)) =
     [''main'', ''container'', ''editable''] \<and>
   trimmed ''main'' \<and> trimmed ''container'' \<and> trimmed ''editable'' \<and>
   fst (Builder_stringify (snd (run [Id ''main'', Class ''container'', Class ''editable'']
        new_Builder))) = ''#main.container.editable'' \<and>
   trimmed ''#main.container.editable''"
proof -
  let ?b = "snd (run [Id ''main'', Class ''container'', Class ''editable''] new_Builder)"
  have v: "stored_values ?b = [''main'', ''container'', ''editable'']"
    by code_simp
  have w: "trimmed ''main''" "trimmed ''container''" "trimmed ''editable''"
    by (simp_all add: trimmed_def whitespace_def)
  then have h: "\<forall>v \<in> set (stored_values ?b). trimmed v"
    unfolding v by simp
  have r: "render_spec ?b = ''#main.container.editable''"
    by code_simp
  have e: "fst (Builder_stringify ?b) = ''#main.container.editable''"
    using stringify_render_spec [of ?b] r by simp
  have t: "trimmed (fst (Builder_stringify ?b))"
    using stringify_render_spec [of ?b] h by blast
  from v w e t [unfolded e] show ?thesis
    by blast
qed

text \<open>
  Claim C4 as stated fails: the builder made by \<open>element(' a')\<close> renders as \<open>' a'\<close>, which
  begins with a space.
\<close>

theorem stringify_keeps_outer_whitespace:
  "fst (Builder_stringify (snd (cssSelectorBuilder_element '' a''))) = '' a'' \<and>
   whitespace (hd (fst (Builder_stringify (snd (cssSelectorBuilder_element '' a''))))) \<and>
   \<not> trimmed (fst (Builder_stringify (snd (cssSelectorBuilder_element '' a''))))"
proof -
  have "fst (Builder_stringify (snd (cssSelectorBuilder_element '' a''))) = '' a''"
    by code_simp
  then show ?thesis
    by (simp add: trimmed_def whitespace_def)
qed

subsection \<open>What a sequence of calls leaves in the three sequences\<close>

lemma values_at_Cons:
  "values_at k (f # fs) = (if stage f = k then [value_of f] else []) @ values_at k fs"
  by (simp add: values_at_def)

lemma values_at_Nil: "values_at k [] = []"
  by (simp add: values_at_def)

lemma sClass_call:
  "sClass (snd (call f this)) = sClass this @ values_at stateVars_sClass [f]"
  by (cases f) (simp_all add: snd_call values_at_def stateVars_defs del: call.simps)

lemma sAttr_call:
  "sAttr (snd (call f this)) = sAttr this @ values_at stateVars_sAttr [f]"
  by (cases f) (simp_all add: snd_call values_at_def stateVars_defs del: call.simps)

lemma sPseudo_call:
  "sPseudo (snd (call f this)) = sPseudo this @ values_at stateVars_sPseudo [f]"
  by (cases f) (simp_all add: snd_call values_at_def stateVars_defs del: call.simps)

lemma sClass_run:
  "sClass (snd (run fs this)) = sClass this @ values_at stateVars_sClass fs"
proof (induction fs arbitrary: this)
  case Nil
  then show ?case by (simp add: values_at_Nil)
next
  case (Cons f fs)
  have "sClass (snd (run (f # fs) this)) = sClass (snd (run fs (snd (call f this))))"
    by (simp only: snd_run_Cons)
  also have "\<dots> = (sClass this @ values_at stateVars_sClass [f]) @ values_at stateVars_sClass fs"
    by (simp only: Cons.IH sClass_call)
  finally show ?case
    by (simp add: values_at_def)
qed

lemma sAttr_run:
  "sAttr (snd (run fs this)) = sAttr this @ values_at stateVars_sAttr fs"
proof (induction fs arbitrary: this)
  case Nil
  then show ?case by (simp add: values_at_Nil)
next
  case (Cons f fs)
  have "sAttr (snd (run (f # fs) this)) = sAttr (snd (run fs (snd (call f this))))"
    by (simp only: snd_run_Cons)
  also have "\<dots> = (sAttr this @ values_at stateVars_sAttr [f]) @ values_at stateVars_sAttr fs"
    by (simp only: Cons.IH sAttr_call)
  finally show ?case
    by (simp add: values_at_def)
qed

lemma sPseudo_run:
  "sPseudo (snd (run fs this)) = sPseudo this @ values_at stateVars_sPseudo fs"
proof (induction fs arbitrary: this)
  case Nil
  then show ?case by (simp add: values_at_Nil)
next
  case (Cons f fs)
  have "sPseudo (snd (run (f # fs) this)) = sPseudo (snd (run fs (snd (call f this))))"
    by (simp only: snd_run_Cons)
  also have "\<dots> =
      (sPseudo this @ values_at stateVars_sPseudo [f]) @ values_at stateVars_sPseudo fs"
    by (simp only: Cons.IH sPseudo_call)
  finally show ?case
    by (simp add: values_at_def)
qed

text \<open>
  Claim C6. Whatever the builder held and whatever else is called in between (also when
  a call raises), every \<open>class\<close>, \<open>attr\<close> and \<open>pseudoClass\<close> value is appended to its
  sequence, in the order of the calls and with equal values kept, and \<open>stringify\<close> lists
  the three sequences in exactly that order.
\<close>

theorem repeated_additions_kept:
  "sClass (snd (run fs this)) = sClass this @ values_at stateVars_sClass fs \<and>
   sAttr (snd (run fs this)) = sAttr this @ values_at stateVars_sAttr fs \<and>
   sPseudo (snd (run fs this)) = sPseudo this @ values_at stateVars_sPseudo fs \<and>
   fst (Builder_stringify (snd (run fs this))) =
     part [] (sElement (snd (run fs this))) @ part ''#'' (sId (snd (run fs this))) @
     concat (map (\<lambda>c. ''.'' @ c) (sClass this @ values_at stateVars_sClass fs)) @
     concat (map (\<lambda>a. ''['' @ a @ '']'') (sAttr this @ values_at stateVars_sAttr fs)) @
     concat (map (\<lambda>p. '':'' @ p) (sPseudo this @ values_at stateVars_sPseudo fs)) @
     part ''::'' (sPseudoE (snd (run fs this)))"
  by (simp add: Builder_stringify_eq render_spec_def sClass_run sAttr_run sPseudo_run)

theorem repeated_additions_kept_witness:
  "values_at stateVars_sClass [Class ''x'', Attr ''p'', Class ''x'', Class ''y'', Attr ''p''] =
     [''x'', ''x'', ''y''] \<and>
   sClass (snd (run [Class ''x'', Attr ''p'', Class ''x'', Class ''y'', Attr ''p''] new_Builder)) =
     [''x'', ''x'', ''y''] \<and>
   sAttr (snd (run [Class ''x'', Attr ''p'', Class ''x'', Class ''y'', Attr ''p''] new_Builder)) =
     [''p'', ''p''] \<and>
   fst (Builder_stringify
     (snd (run [Class ''x'', Attr ''p'', Class ''x'', Class ''y'', Attr ''p''] new_Builder))) =
     ''.x.x.y[p][p]''"
proof -
  let ?fs = "[Class ''x'', Attr ''p'', Class ''x'', Class ''y'', Attr ''p'']"
  have c: "values_at stateVars_sClass ?fs = [''x'', ''x'', ''y'']"
    by code_simp
  have a: "values_at stateVars_sAttr ?fs = [''p'', ''p'']"
    by code_simp
  have p: "values_at stateVars_sPseudo ?fs = []"
    by code_simp
  have n: "sClass new_Builder = []" "sAttr new_Builder = []" "sPseudo new_Builder = []"
    by (simp_all add: new_Builder_def)
  have e: "sElement (snd (run ?fs new_Builder)) = None"
    "sId (snd (run ?fs new_Builder)) = None" "sPseudoE (snd (run ?fs new_Builder)) = None"
    by code_simp+
  from repeated_additions_kept [of ?fs new_Builder] show ?thesis
    unfolding c a p n e by simp
qed

subsection \<open>Sequences in stage order\<close>

lemma run_snoc:
  "run (fs @ [f]) this =
     (fst (run fs this) @ [fst (call f (snd (run fs this)))], snd (call f (snd (run fs this))))"
  by (induction fs arbitrary: this) (simp_all add: split_beta del: call.simps)

lemma values_at_snoc:
  "values_at k (fs @ [f]) = values_at k fs @ (if stage f = k then [value_of f] else [])"
  by (simp add: values_at_def)

lemma at_most_once_snoc:
  assumes "at_most_once (fs @ [f])"
  shows "at_most_once fs"
    and "stage f = stateVars_sElement \<Longrightarrow> values_at stateVars_sElement fs = []"
    and "stage f = stateVars_sId \<Longrightarrow> values_at stateVars_sId fs = []"
    and "stage f = stateVars_sPseudoE \<Longrightarrow> values_at stateVars_sPseudoE fs = []"
  using assms by (simp_all add: at_most_once_def values_at_snoc split: if_splits)

lemma run_in_stage_order:
  assumes "sorted (map stage fs)" and "at_most_once fs"
  shows "fst (run fs new_Builder) = map (\<lambda>f. Inr ()) fs \<and>
    sElement (snd (run fs new_Builder)) =
      (case values_at stateVars_sElement fs of [] \<Rightarrow> None | v # vs \<Rightarrow> Some v) \<and>
    sId (snd (run fs new_Builder)) =
      (case values_at stateVars_sId fs of [] \<Rightarrow> None | v # vs \<Rightarrow> Some v) \<and>
    sPseudoE (snd (run fs new_Builder)) =
      (case values_at stateVars_sPseudoE fs of [] \<Rightarrow> None | v # vs \<Rightarrow> Some v) \<and>
    (\<forall>k<6. state (snd (run fs new_Builder)) ! k \<longrightarrow> (\<exists>g \<in> set fs. stage g = k))"
  using assms
proof (induction fs rule: rev_induct)
  case Nil
  show ?case
    by (simp add: values_at_Nil) (simp add: new_Builder_def)
next
  case (snoc f fs)
  let ?b = "snd (run fs new_Builder)"
  from snoc.prems(1) have sorted: "sorted (map stage fs)"
    and below: "\<forall>g \<in> set fs. stage g \<le> stage f"
    by (simp_all add: sorted_append)
  note once = at_most_once_snoc [OF snoc.prems(2)]
  note ih = snoc.IH [OF sorted once(1)]
  have len: "length (state ?b) = 6"
    using consistent_run [OF consistent_new_Builder, of fs] by (simp add: consistent_def)
  have fresh: "\<not> already_set f ?b"
    using ih once(2-4) by (cases f) simp_all
  have "\<not> (\<exists>k. stage f < k \<and> k < length (state ?b) \<and> state ?b ! k)"
  proof
    assume "\<exists>k. stage f < k \<and> k < length (state ?b) \<and> state ?b ! k"
    then obtain k where k: "stage f < k" "k < 6" "state ?b ! k"
      using len by auto
    with ih obtain g where "g \<in> set fs" "stage g = k"
      by blast
    with below k(1) show False
      by auto
  qed
  with fresh have ok: "fst (call f ?b) = Inr ()"
    by (simp add: fst_call)
  from fresh have after:
    "snd (call f ?b) = (store f ?b)\<lparr>state := js_assign (state ?b) (stage f) True\<rparr>"
    by (simp add: snd_call)
  have e: "sElement (store f ?b) =
      (case values_at stateVars_sElement (fs @ [f]) of [] \<Rightarrow> None | v # vs \<Rightarrow> Some v)"
    using ih once(2) by (cases f) (simp_all add: values_at_snoc stateVars_defs)
  have i: "sId (store f ?b) =
      (case values_at stateVars_sId (fs @ [f]) of [] \<Rightarrow> None | v # vs \<Rightarrow> Some v)"
    using ih once(3) by (cases f) (simp_all add: values_at_snoc stateVars_defs)
  have p: "sPseudoE (store f ?b) =
      (case values_at stateVars_sPseudoE (fs @ [f]) of [] \<Rightarrow> None | v # vs \<Rightarrow> Some v)"
    using ih once(4) by (cases f) (simp_all add: values_at_snoc stateVars_defs)
  have t: "\<exists>g \<in> set (fs @ [f]). stage g = k"
    if "k < 6" and "js_assign (state ?b) (stage f) True ! k" for k
  proof (cases "k = stage f")
    case True
    then show ?thesis by simp
  next
    case False
    with that len have "state ?b ! k"
      by (simp add: js_assign_other)
    with ih that(1) show ?thesis
      by auto
  qed
  from ih ok show ?case
    unfolding run_snoc fst_conv snd_conv after using e i p t by simp
qed

lemma part_first:
  "length vs \<le> 1 \<Longrightarrow>
     part prefix (case vs of [] \<Rightarrow> None | v # ws \<Rightarrow> Some v) =
     concat (map (\<lambda>v. part prefix (Some v)) vs)"
  by (cases vs) simp_all

lemma part_first_plain:
  "length vs \<le> 1 \<Longrightarrow> part [] (case vs of [] \<Rightarrow> None | v # ws \<Rightarrow> Some v) = concat vs"
  by (cases vs) simp_all

text \<open>
  Claim C2, as amended. For every sequence of additions to a new builder whose stages
  are non-decreasing and that names element, id and pseudo-element at most once each,
  every call returns normally, and \<open>stringify\<close> afterwards returns the concatenation in
  the fixed order of section 4.1.
\<close>

theorem stage_order_no_error:
  assumes "sorted (map stage fs)" and "at_most_once fs"
  shows "fst (run fs new_Builder) = map (\<lambda>f. Inr ()) fs \<and>
    fst (Builder_stringify (snd (run fs new_Builder))) = render_in_order fs"
proof -
  note r = run_in_stage_order [OF assms]
  from assms(2) have l: "length (values_at stateVars_sElement fs) \<le> 1"
    "length (values_at stateVars_sId fs) \<le> 1" "length (values_at stateVars_sPseudoE fs) \<le> 1"
    by (simp_all add: at_most_once_def)
  have n: "sClass new_Builder = []" "sAttr new_Builder = []" "sPseudo new_Builder = []"
    by (simp_all add: new_Builder_def)
  have e: "part [] (sElement (snd (run fs new_Builder))) =
      concat (values_at stateVars_sElement fs)"
    using r l(1) by (simp add: part_first_plain)
  have i: "part ''#'' (sId (snd (run fs new_Builder))) =
      concat (map (\<lambda>v. part ''#'' (Some v)) (values_at stateVars_sId fs))"
    using r l(2) by (simp add: part_first del: part.simps)
  have p: "part ''::'' (sPseudoE (snd (run fs new_Builder))) =
      concat (map (\<lambda>v. part ''::'' (Some v)) (values_at stateVars_sPseudoE fs))"
    using r l(3) by (simp add: part_first del: part.simps)
  have "render_spec (snd (run fs new_Builder)) = render_in_order fs"
    unfolding render_spec_def render_in_order_def sClass_run sAttr_run sPseudo_run n e i p
    by simp
  with r show ?thesis
    by (simp add: Builder_stringify_eq)
qed

theorem stage_order_no_error_witness:
  "sorted (map stage [Element ''a'', Attr ''href$=\".png\"'', PseudoClass ''focus'']) \<and>
   at_most_once [Element ''a'', Attr ''href$=\".png\"'', PseudoClass ''focus''] \<and>
   fst (run [Element ''a'', Attr ''href$=\".png\"'', PseudoClass ''focus''] new_Builder) =
     [Inr (), Inr (), Inr ()] \<and>
   fst (Builder_stringify
     (snd (run [Element ''a'', Attr ''href$=\".png\"'', PseudoClass ''focus''] new_Builder))) =
     ''a[href$=\".png\"]:focus''"
proof -
  let ?fs = "[Element ''a'', Attr ''href$=\".png\"'', PseudoClass ''focus'']"
  have s: "sorted (map stage ?fs)"
    by (simp add: stateVars_defs)
  have a: "at_most_once ?fs"
    by (simp add: at_most_once_def values_at_def stateVars_defs)
  have t: "render_in_order ?fs = ''a[href$=\".png\"]:focus''"
    by (simp add: render_in_order_def values_at_def stateVars_defs)
  from stage_order_no_error [OF s a] s a show ?thesis
    unfolding t by (simp del: run.simps)
qed

text \<open>
  Claim C2 as stated fails: the stages of \<open>element('a')\<close>, \<open>element('b')\<close> are
  non-decreasing, and the second call raises the duplicate error.
\<close>

theorem stage_order_duplicate_error:
  "sorted (map stage [Element ''a'', Element ''b'']) \<and>
   fst (run [Element ''a'', Element ''b''] new_Builder) = [Inr (), Inl DuplicateFragmentError]"
proof -
  have "fst (run [Element ''a'', Element ''b''] new_Builder) = [Inr (), Inl DuplicateFragmentError]"
    by code_simp
  then show ?thesis
    by (simp add: stateVars_defs del: run.simps)
qed

subsection \<open>Combiners\<close>

lemma snd_Builder_stringify: "snd (Builder_stringify this) = this"
  by (simp add: Builder_stringify_def Let_def)

lemma snd_stringify: "snd (stringify n r h) = h"
proof (induction n arbitrary: r h)
  case 0
  show ?case by simp
next
  case (Suc n)
  have same: "h' = h" if "stringify n a h = (x, h')" for a h x h'
    using Suc [of a h] that by simp
  show ?case
  proof (cases r)
    case (BuilderRef i)
    then show ?thesis
      by (simp add: split_beta snd_Builder_stringify)
  next
    case (CombinerRef i)
    show ?thesis
      unfolding CombinerRef
      by (auto simp: Let_def split: option.split sum.split prod.split dest: same)
  qed
qed


lemma stringify_pairD: "stringify n r h = (x, h') \<Longrightarrow> h' = h"
  using snd_stringify [of n r h] by simp

lemma fst_stringify_Builder:
  "fst (stringify (Suc n) (BuilderRef i) h) =
     (if i < length (builders h) then Some (Inr (fst (Builder_stringify (builders h ! i))))
      else Some (Inl TypeError))"
  by (simp add: split_beta)

lemma fst_stringify_Combiner:
  "fst (stringify (Suc n) (CombinerRef i) h) =
     (if i < length (combiners h) then
        (case s1 (combiners h ! i) of
           None \<Rightarrow> Some (Inl TypeError)
         | Some a \<Rightarrow>
            (case fst (stringify n a h) of
               Some (Inr ra) \<Rightarrow>
                 (case s2 (combiners h ! i) of
                    None \<Rightarrow> Some (Inl TypeError)
                  | Some b \<Rightarrow>
                     (case fst (stringify n b h) of
                        Some (Inr rb) \<Rightarrow>
                          Some (Inr (ra @ '' '' @ ToString (combiner (combiners h ! i)) @ '' '' @ rb))
                      | r \<Rightarrow> r))
             | r \<Rightarrow> r))
      else Some (Inl TypeError))"
  by (auto simp: Let_def split: option.split sum.split prod.split dest: stringify_pairD)

lemma stringify_Builder_Inr_iff:
  "fst (stringify (Suc n) (BuilderRef i) h) = Some (Inr s) \<longleftrightarrow>
     i < length (builders h) \<and> s = fst (Builder_stringify (builders h ! i))"
  unfolding fst_stringify_Builder by auto

lemma stringify_Combiner_Inr_iff:
  "fst (stringify (Suc n) (CombinerRef i) h) = Some (Inr s) \<longleftrightarrow>
     i < length (combiners h) \<and>
     (\<exists>a b ra rb. s1 (combiners h ! i) = Some a \<and> s2 (combiners h ! i) = Some b \<and>
        fst (stringify n a h) = Some (Inr ra) \<and> fst (stringify n b h) = Some (Inr rb) \<and>
        s = ra @ '' '' @ ToString (combiner (combiners h ! i)) @ '' '' @ rb)"
  unfolding fst_stringify_Combiner
  by (auto split: option.split sum.split)


lemma stringify_Inr_Suc:
  "fst (stringify n r h) = Some (Inr s) \<Longrightarrow> fst (stringify (Suc n) r h) = Some (Inr s)"
proof (induction n arbitrary: r s)
  case 0
  then show ?case by simp
next
  case (Suc n)
  show ?case
  proof (cases r)
    case (BuilderRef i)
    with Suc.prems show ?thesis
      unfolding BuilderRef stringify_Builder_Inr_iff by simp
  next
    case (CombinerRef i)
    from Suc.prems obtain a b ra rb where
      "i < length (combiners h)" "s1 (combiners h ! i) = Some a" "s2 (combiners h ! i) = Some b"
      "fst (stringify n a h) = Some (Inr ra)" "fst (stringify n b h) = Some (Inr rb)"
      "s = ra @ '' '' @ ToString (combiner (combiners h ! i)) @ '' '' @ rb"
      unfolding CombinerRef stringify_Combiner_Inr_iff by blast
    moreover from this have "fst (stringify (Suc n) a h) = Some (Inr ra)"
      "fst (stringify (Suc n) b h) = Some (Inr rb)"
      by (blast intro: Suc.IH)+
    ultimately show ?thesis
      unfolding CombinerRef stringify_Combiner_Inr_iff [of "Suc n"] by blast
  qed
qed

lemma stringify_Inr_mono:
  "fst (stringify n r h) = Some (Inr s) \<Longrightarrow> n \<le> m \<Longrightarrow> fst (stringify m r h) = Some (Inr s)"
proof (induction m)
  case 0
  then show ?case by simp
next
  case (Suc m)
  show ?case
  proof (cases "n = Suc m")
    case True
    with Suc.prems show ?thesis by simp
  next
    case False
    with Suc.prems have "n \<le> m" by simp
    with Suc have "fst (stringify m r h) = Some (Inr s)" by simp
    then show ?thesis by (rule stringify_Inr_Suc)
  qed
qed

text \<open>A new combiner in the store changes no result of the objects that were there.\<close>

lemma stringify_Inr_new:
  "fst (stringify n r h) = Some (Inr s) \<Longrightarrow>
     fst (stringify n r (h\<lparr>combiners := combiners h @ [c]\<rparr>)) = Some (Inr s)"
proof (induction n arbitrary: r s)
  case 0
  then show ?case by simp
next
  case (Suc n)
  let ?h = "h\<lparr>combiners := combiners h @ [c]\<rparr>"
  show ?case
  proof (cases r)
    case (BuilderRef i)
    with Suc.prems show ?thesis
      unfolding BuilderRef stringify_Builder_Inr_iff by simp
  next
    case (CombinerRef i)
    from Suc.prems obtain a b ra rb where i: "i < length (combiners h)"
      and f: "s1 (combiners h ! i) = Some a" "s2 (combiners h ! i) = Some b"
      and r: "fst (stringify n a h) = Some (Inr ra)" "fst (stringify n b h) = Some (Inr rb)"
      and s: "s = ra @ '' '' @ ToString (combiner (combiners h ! i)) @ '' '' @ rb"
      unfolding CombinerRef stringify_Combiner_Inr_iff by blast
    from i have same: "combiners ?h ! i = combiners h ! i" and i': "i < length (combiners ?h)"
      by (simp_all add: nth_append)
    from r have "fst (stringify n a ?h) = Some (Inr ra)" "fst (stringify n b ?h) = Some (Inr rb)"
      by (blast intro: Suc.IH)+
    with i' f s show ?thesis
      unfolding CombinerRef stringify_Combiner_Inr_iff same by blast
  qed
qed

lemma cssSelectorBuilder_combine_eq:
  "cssSelectorBuilder_combine a c b h =
     (CombinerRef (length (combiners h)),
      h\<lparr>combiners := combiners h @ [\<lparr>s1 = Some a, s2 = Some b, combiner = Some c\<rparr>]\<rparr>)"
  by (simp add: cssSelectorBuilder_combine_def new_Combiner_def Combiner_combine_def
      assign_Combiner_def Let_def)

lemma stringify_combine:
  assumes "fst (stringify n a h) = Some (Inr ra)" and "fst (stringify m b h) = Some (Inr rb)"
    and "n \<le> k" and "m \<le> k"
  shows "fst (stringify (Suc k) (fst (cssSelectorBuilder_combine a c b h))
      (snd (cssSelectorBuilder_combine a c b h))) = Some (Inr (ra @ '' '' @ c @ '' '' @ rb))"
proof -
  let ?h = "h\<lparr>combiners := combiners h @ [\<lparr>s1 = Some a, s2 = Some b, combiner = Some c\<rparr>]\<rparr>"
  from assms have "fst (stringify k a h) = Some (Inr ra)" "fst (stringify k b h) = Some (Inr rb)"
    by (blast intro: stringify_Inr_mono)+
  then have "fst (stringify k a ?h) = Some (Inr ra)" "fst (stringify k b ?h) = Some (Inr rb)"
    by (blast intro: stringify_Inr_new)+
  then show ?thesis
    unfolding cssSelectorBuilder_combine_eq fst_conv snd_conv stringify_Combiner_Inr_iff
    by simp
qed

lemma stringify_kept_by_combine:
  assumes "fst (stringify n r h) = Some (Inr s)"
  shows "fst (stringify n r (snd (cssSelectorBuilder_combine a c b h))) = Some (Inr s)"
  using assms unfolding cssSelectorBuilder_combine_eq snd_conv by (rule stringify_Inr_new)


text \<open>
  Claim C5. When \<open>a\<close> and \<open>b\<close> render to the strings \<open>ra\<close> and \<open>rb\<close>, the object that
  \<open>combine(a, s, b)\<close> returns renders to \<open>ra + ' ' + s + ' ' + rb\<close>, whatever the string \<open>s\<close>
  is, one level of calls deeper. Combiners nest: when \<open>c\<close> renders to \<open>rc\<close> too,
  \<open>combine(combine(a, '~', b), ' ', c)\<close> renders to \<open>ra + ' ~ ' + rb\<close>, three spaces, \<open>rc\<close>.
\<close>

theorem combine_stringify:
  assumes "fst (stringify n a h) = Some (Inr ra)" and "fst (stringify n b h) = Some (Inr rb)"
    and "fst (stringify n c h) = Some (Inr rc)"
  shows "fst (stringify (Suc n) (fst (cssSelectorBuilder_combine a s b h))
      (snd (cssSelectorBuilder_combine a s b h))) = Some (Inr (ra @ '' '' @ s @ '' '' @ rb)) \<and>
    (let (ab, h1) = cssSelectorBuilder_combine a ''~'' b h;
         (abc, h2) = cssSelectorBuilder_combine ab '' '' c h1
     in fst (stringify (Suc (Suc n)) abc h2) = Some (Inr (ra @ '' ~ '' @ rb @ ''   '' @ rc)))"
proof -
  let ?ab = "fst (cssSelectorBuilder_combine a ''~'' b h)"
  let ?h1 = "snd (cssSelectorBuilder_combine a ''~'' b h)"
  have one: "fst (stringify (Suc n) (fst (cssSelectorBuilder_combine a s b h))
      (snd (cssSelectorBuilder_combine a s b h))) = Some (Inr (ra @ '' '' @ s @ '' '' @ rb))" for s
    using assms(1,2) by (rule stringify_combine) simp_all
  have "fst (stringify n c ?h1) = Some (Inr rc)"
    using assms(3) by (rule stringify_kept_by_combine)
  with one [of "''~''"]
  have "fst (stringify (Suc (Suc n)) (fst (cssSelectorBuilder_combine ?ab '' '' c ?h1))
      (snd (cssSelectorBuilder_combine ?ab '' '' c ?h1))) =
      Some (Inr ((ra @ '' '' @ ''~'' @ '' '' @ rb) @ '' '' @ '' '' @ '' '' @ rc))"
    by (rule stringify_combine) simp_all
  then have "let (ab, h1) = cssSelectorBuilder_combine a ''~'' b h;
         (abc, h2) = cssSelectorBuilder_combine ab '' '' c h1
     in fst (stringify (Suc (Suc n)) abc h2) = Some (Inr (ra @ '' ~ '' @ rb @ ''   '' @ rc))"
    by (simp add: split_beta del: stringify.simps)
  with one [of s] show ?thesis
    by blast
qed

theorem combine_stringify_witness:
  "fst (stringify 1 (BuilderRef 0)
     \<lparr>builders = [snd (cssSelectorBuilder_element ''tr''), snd (cssSelectorBuilder_element ''td''),
        snd (cssSelectorBuilder_id ''x'')], combiners = []\<rparr>) = Some (Inr ''tr'') \<and>
   fst (stringify 1 (BuilderRef 1)
     \<lparr>builders = [snd (cssSelectorBuilder_element ''tr''), snd (cssSelectorBuilder_element ''td''),
        snd (cssSelectorBuilder_id ''x'')], combiners = []\<rparr>) = Some (Inr ''td'') \<and>
   fst (stringify 1 (BuilderRef 2)
     \<lparr>builders = [snd (cssSelectorBuilder_element ''tr''), snd (cssSelectorBuilder_element ''td''),
        snd (cssSelectorBuilder_id ''x'')], combiners = []\<rparr>) = Some (Inr ''#x'') \<and>
   fst (stringify (Suc 1)
     (fst (cssSelectorBuilder_combine (BuilderRef 0) ''+'' (BuilderRef 1)
       \<lparr>builders = [snd (cssSelectorBuilder_element ''tr''),
          snd (cssSelectorBuilder_element ''td''), snd (cssSelectorBuilder_id ''x'')],
        combiners = []\<rparr>))
     (snd (cssSelectorBuilder_combine (BuilderRef 0) ''+'' (BuilderRef 1)
       \<lparr>builders = [snd (cssSelectorBuilder_element ''tr''),
          snd (cssSelectorBuilder_element ''td''), snd (cssSelectorBuilder_id ''x'')],
        combiners = []\<rparr>))) = Some (Inr ''tr + td'') \<and>
   (let (ab, h1) = cssSelectorBuilder_combine (BuilderRef 0) ''~'' (BuilderRef 1)
       \<lparr>builders = [snd (cssSelectorBuilder_element ''tr''),
          snd (cssSelectorBuilder_element ''td''), snd (cssSelectorBuilder_id ''x'')],
        combiners = []\<rparr>;
        (abc, h2) = cssSelectorBuilder_combine ab '' '' (BuilderRef 2) h1
    in fst (stringify (Suc (Suc 1)) abc h2) = Some (Inr ''tr ~ td   #x''))"
proof -
  let ?h = "\<lparr>builders = [snd (cssSelectorBuilder_element ''tr''),
    snd (cssSelectorBuilder_element ''td''), snd (cssSelectorBuilder_id ''x'')], combiners = []\<rparr>"
  have a: "fst (stringify 1 (BuilderRef 0) ?h) = Some (Inr ''tr'')"
    by code_simp
  have b: "fst (stringify 1 (BuilderRef 1) ?h) = Some (Inr ''td'')"
    by code_simp
  have c: "fst (stringify 1 (BuilderRef 2) ?h) = Some (Inr ''#x'')"
    by code_simp
  from combine_stringify [OF a b c, of "''+''"] a b c show ?thesis
    by (simp del: stringify.simps)
qed

text \<open>
  Claim C7, as amended. \<open>stringify\<close> changes no object: after the call the store is what
  it was, so every combiner has the \<open>s1\<close>, \<open>s2\<close> and \<open>combiner\<close> it had, and a second call
  gives the same result.
\<close>

theorem stringify_changes_no_object:
  "snd (stringify n r h) = h \<and>
   s1 (combiners (snd (stringify n r h)) ! i) = s1 (combiners h ! i) \<and>
   s2 (combiners (snd (stringify n r h)) ! i) = s2 (combiners h ! i) \<and>
   combiner (combiners (snd (stringify n r h)) ! i) = combiner (combiners h ! i) \<and>
   fst (stringify n r (snd (stringify n r h))) = fst (stringify n r h)"
  by (simp add: snd_stringify)

text \<open>
  Claim C7 as stated fails: the object that \<open>combine\<close> returns has the method \<open>combine\<close>
  itself, and a second call of it overwrites the three stored components. Here
  \<open>x = combine(a, '+', b)\<close> renders as \<open>a + b\<close>, and after \<open>x.combine(c, '~', a)\<close> the same
  object renders as \<open>c ~ a\<close>.
\<close>

theorem combine_again_overwrites:
  "fst (cssSelectorBuilder_combine (BuilderRef 0) ''+'' (BuilderRef 1)
     \<lparr>builders = [snd (cssSelectorBuilder_element ''a''), snd (cssSelectorBuilder_element ''b''),
        snd (cssSelectorBuilder_element ''c'')], combiners = []\<rparr>) = CombinerRef 0 \<and>
   combiners (snd (cssSelectorBuilder_combine (BuilderRef 0) ''+'' (BuilderRef 1)
     \<lparr>builders = [snd (cssSelectorBuilder_element ''a''), snd (cssSelectorBuilder_element ''b''),
        snd (cssSelectorBuilder_element ''c'')], combiners = []\<rparr>)) ! 0 =
     \<lparr>s1 = Some (BuilderRef 0), s2 = Some (BuilderRef 1), combiner = Some ''+''\<rparr> \<and>
   fst (stringify 2 (CombinerRef 0) (snd (cssSelectorBuilder_combine (BuilderRef 0) ''+''
     (BuilderRef 1)
     \<lparr>builders = [snd (cssSelectorBuilder_element ''a''), snd (cssSelectorBuilder_element ''b''),
        snd (cssSelectorBuilder_element ''c'')], combiners = []\<rparr>))) = Some (Inr ''a + b'') \<and>
   fst (Combiner_combine 0 (BuilderRef 2) ''~'' (BuilderRef 0)
     (snd (cssSelectorBuilder_combine (BuilderRef 0) ''+'' (BuilderRef 1)
     \<lparr>builders = [snd (cssSelectorBuilder_element ''a''), snd (cssSelectorBuilder_element ''b''),
        snd (cssSelectorBuilder_element ''c'')], combiners = []\<rparr>))) = CombinerRef 0 \<and>
   combiners (snd (Combiner_combine 0 (BuilderRef 2) ''~'' (BuilderRef 0)
     (snd (cssSelectorBuilder_combine (BuilderRef 0) ''+'' (BuilderRef 1)
     \<lparr>builders = [snd (cssSelectorBuilder_element ''a''), snd (cssSelectorBuilder_element ''b''),
        snd (cssSelectorBuilder_element ''c'')], combiners = []\<rparr>)))) ! 0 =
     \<lparr>s1 = Some (BuilderRef 2), s2 = Some (BuilderRef 0), combiner = Some ''~''\<rparr> \<and>
   fst (stringify 2 (CombinerRef 0) (snd (Combiner_combine 0 (BuilderRef 2) ''~'' (BuilderRef 0)
     (snd (cssSelectorBuilder_combine (BuilderRef 0) ''+'' (BuilderRef 1)
     \<lparr>builders = [snd (cssSelectorBuilder_element ''a''), snd (cssSelectorBuilder_element ''b''),
        snd (cssSelectorBuilder_element ''c'')], combiners = []\<rparr>))))) = Some (Inr ''c ~ a'')"
  by code_simp

end
